theory Spec2Isabelle
  imports Main "HOL-Library.AList" "HOL-Library.Char_ord" "HOL-Library.List_Lexorder"
begin

section \<open>Python values used by the scripts\<close>

text \<open>
  Names are Python strings, modelled as \<open>string\<close>.  Python compares strings by code
  point, lexicographically, a proper prefix being smaller: this is the order of
  \<open>List_Lexorder\<close> over \<open>Char_ord\<close>.  A SQL cell that may be NULL, and a Python value
  that may be \<open>None\<close>, is an \<open>option\<close>.
\<close>

text \<open>\<open>d.get(k)\<close> on a dict whose values may be \<open>None\<close> (a NULL cell): a missing key
  and a stored \<open>None\<close> both give \<open>None\<close>.\<close>

definition py_get :: "('k \<rightharpoonup> 'v option) \<Rightarrow> 'k \<Rightarrow> 'v option" where
  "py_get d k = (case d k of None \<Rightarrow> None | Some v \<Rightarrow> v)"

text \<open>\<open>d.get(k, default)\<close>.\<close>

definition py_get_default :: "('k \<rightharpoonup> 'v) \<Rightarrow> 'k \<Rightarrow> 'v \<Rightarrow> 'v" where
  "py_get_default d k dflt = (case d k of None \<Rightarrow> dflt | Some v \<Rightarrow> v)"

section \<open>scripts/final/build\_network.py: consolidate\_name\<close>

definition EXCLUDED_NAMES :: "string set" where
  "EXCLUDED_NAMES =
     {''Jeffrey Epstein'', ''Jeffrey E.'', ''Jeffrey E'', ''Jeffrey'', ''E. Jeffrey'',
      ''Epstein'', ''Jeff Epstein'', ''J. Epstein'', ''JE'', ''J.E.'', ''jeffrey E.'',
      ''jeffrey'', ''JEFFREY'', ''Jeff'', ''jeff''}"

text \<open>
  \<open>name_mapping\<close> is the dict \<open>{name_extracted: canonical_name [F2d]}\<close> read from the
  names table; the canonical cell may be NULL.  The closure \<open>consolidate_name\<close> reads
  it, so the model takes it as its first argument.
\<close>

definition consolidate_name :: "(string \<rightharpoonup> string option) \<Rightarrow> string \<Rightarrow> string option" where
  "consolidate_name name_mapping name =
     (if name = [] then None
      else case py_get name_mapping name of
             None \<Rightarrow> None
           | Some canonical \<Rightarrow>
               if canonical = ''None'' then None
               else if canonical \<in> EXCLUDED_NAMES \<or> name \<in> EXCLUDED_NAMES then None
               else Some canonical)"

section \<open>The names table and the consolidation passes\<close>

text \<open>
  A row of \<open>FINAL_3_unique_names\<close>: the extracted name and one canonical-name column
  per generation.  A column that \<open>ALTER TABLE ... ADD COLUMN\<close> has just created holds
  NULL in every row, so a missing column and a column of NULLs are the same table here.
\<close>

record name_row =
  name_extracted :: string
  canonical_F2 :: "string option"
  canonical_F2c :: "string option"
  canonical_F2d :: "string option"

subsection \<open>scripts/final/run\_name\_consolidation.py: the first pass\<close>

text \<open>
  Lines 160-183.  The oracle's answers are the input, one per batch: \<open>None\<close> for a failed
  call, else a dict from canonical name to the list of its variants.  A non-empty
  answer is merged into \<open>consolidation_map\<close>, a dict in insertion order: the variants
  of a canonical name already present are appended to its list.
\<close>

definition merge_answer ::
  "(string \<times> string list) list \<Rightarrow> (string \<times> string list) list \<Rightarrow> (string \<times> string list) list" where
  "merge_answer result consolidation_map =
     fold (\<lambda>(canonical, variants) m.
             case map_of m canonical of
               Some vs \<Rightarrow> AList.update canonical (vs @ variants) m
             | None \<Rightarrow> m @ [(canonical, variants)])
       result consolidation_map"

definition consolidation_map ::
  "(string \<times> string list) list option list \<Rightarrow> (string \<times> string list) list" where
  "consolidation_map results =
     fold (\<lambda>result m. case result of
                         None \<Rightarrow> m
                       | Some r \<Rightarrow> if r \<noteq> [] then merge_answer r m else m)
       results []"

text \<open>Lines 192-196: the reverse mapping is built by two nested loops, a later
  assignment to the same variant replacing an earlier one.\<close>

definition variant_to_canonical :: "(string \<times> string list) list \<Rightarrow> (string \<rightharpoonup> string)" where
  "variant_to_canonical cmap =
     fold (\<lambda>(canonical, variants) m. fold (\<lambda>variant m'. m'(variant \<mapsto> canonical)) variants m)
       cmap Map.empty"

text \<open>
  Lines 188-218.  When \<open>consolidation_map\<close> is empty the function returns before the
  column is added and before any UPDATE: the result is \<open>None\<close> and no canonical name is
  written.  Otherwise every row gets \<open>variant_to_canonical.get(name, name)\<close> in the
  column \<open>canonical_name [F2]\<close>.
\<close>

definition first_pass ::
  "(string \<times> string list) list option list \<Rightarrow> name_row list \<Rightarrow> name_row list option" where
  "first_pass results name_rows =
     (let cmap = consolidation_map results
      in if cmap = [] then None
         else Some (map (\<lambda>r. r\<lparr>canonical_F2 :=
                              Some (py_get_default (variant_to_canonical cmap)
                                      (name_extracted r) (name_extracted r))\<rparr>)
                      name_rows))"

text \<open>The variants held by a dict from canonical name to variants, and the variants
  that the answers list, whatever canonical name they are listed under.\<close>

definition variants_of :: "(string \<times> string list) list \<Rightarrow> string set" where
  "variants_of m = (\<Union>(canonical, variants) \<in> set m. set variants)"

definition listed_variants :: "(string \<times> string list) list option list \<Rightarrow> string set" where
  "listed_variants results =
     (\<Union>result \<in> set results. case result of None \<Rightarrow> {} | Some r \<Rightarrow> variants_of r)"

subsection \<open>The passes v2, v3 and v4\<close>

text \<open>
  \<open>all_changes\<close> is a Python dict, old name to new name: an association list with
  distinct keys in insertion order.  \<open>d[k] = v\<close> is \<open>AList.update\<close>: a present key keeps
  its place and takes the new value, a new key is appended.  \<open>d.update(changes)\<close> assigns
  the pairs of \<open>changes\<close> in order.
\<close>

definition py_update :: "('k \<times> 'v) list \<Rightarrow> ('k \<times> 'v) list \<Rightarrow> ('k \<times> 'v) list" where
  "py_update d changes = fold (\<lambda>(k, v) d'. AList.update k v d') changes d"

text \<open>
  The loop over the batches (v2 lines 171-177, v3 lines 239-243), from a given state of
  \<open>all_changes\<close>.  The oracle's answers are the input: one dict per batch, \<open>{}\<close> for a
  failed batch.  \<open>if changes: all_changes.update(changes)\<close>.
\<close>

definition collect_from ::
  "(string \<times> string) list \<Rightarrow> (string \<times> string) list list \<Rightarrow> (string \<times> string) list" where
  "collect_from acc responses =
     fold (\<lambda>changes all_changes. if changes \<noteq> [] then py_update all_changes changes else all_changes)
       responses acc"

text \<open>Lines 165-177 of v2, 233-243 of v3: \<open>all_changes\<close> starts empty.\<close>

definition collect_changes :: "(string \<times> string) list list \<Rightarrow> (string \<times> string) list" where
  "collect_changes responses = collect_from [] responses"

text \<open>\<open>UPDATE t SET col = new WHERE col = old\<close> on one cell; NULL equals nothing.\<close>

definition update_where_eq :: "string \<Rightarrow> string \<Rightarrow> string option \<Rightarrow> string option" where
  "update_where_eq new_name old_name cell = (if cell = Some old_name then Some new_name else cell)"

text \<open>v2, lines 197-207: one UPDATE of column F2 per pair of \<open>all_changes\<close>, in dict order.\<close>

definition apply_changes_v2 :: "(string \<times> string) list \<Rightarrow> name_row list \<Rightarrow> name_row list" where
  "apply_changes_v2 all_changes tbl =
     fold (\<lambda>(old_name, new_name) t.
             map (\<lambda>r. r\<lparr>canonical_F2 := update_where_eq new_name old_name (canonical_F2 r)\<rparr>) t)
       all_changes tbl"

text \<open>v3, lines 261-284: the column F2c is added, F2 is copied into the cells of F2c that
  are NULL, and the UPDATEs run on F2c.  This stage is reached when the token matcher
  found a group; otherwise the script returns before it (lines 214-216) and the table
  stays as it is.\<close>

definition copy_F2_to_F2c :: "name_row list \<Rightarrow> name_row list" where
  "copy_F2_to_F2c tbl =
     map (\<lambda>r. if canonical_F2c r = None then r\<lparr>canonical_F2c := canonical_F2 r\<rparr> else r) tbl"

definition apply_changes_v3 :: "(string \<times> string) list \<Rightarrow> name_row list \<Rightarrow> name_row list" where
  "apply_changes_v3 all_changes tbl =
     fold (\<lambda>(old_name, new_name) t.
             map (\<lambda>r. r\<lparr>canonical_F2c := update_where_eq new_name old_name (canonical_F2c r)\<rparr>) t)
       all_changes (copy_F2_to_F2c tbl)"

text \<open>v4, lines 201-226: the same from F2c to the new column F2d, reached when the
  suffix matcher found a group (lines 165-167).\<close>

definition copy_F2c_to_F2d :: "name_row list \<Rightarrow> name_row list" where
  "copy_F2c_to_F2d tbl =
     map (\<lambda>r. if canonical_F2d r = None then r\<lparr>canonical_F2d := canonical_F2c r\<rparr> else r) tbl"

definition apply_changes_v4 :: "(string \<times> string) list \<Rightarrow> name_row list \<Rightarrow> name_row list" where
  "apply_changes_v4 all_changes tbl =
     fold (\<lambda>(old_name, new_name) t.
             map (\<lambda>r. r\<lparr>canonical_F2d := update_where_eq new_name old_name (canonical_F2d r)\<rparr>) t)
       all_changes (copy_F2c_to_F2d tbl)"

text \<open>What the sequence of UPDATEs does to one cell.\<close>

definition change_cell :: "(string \<times> string) list \<Rightarrow> string option \<Rightarrow> string option" where
  "change_cell all_changes cell =
     fold (\<lambda>(old_name, new_name) c. update_where_eq new_name old_name c) all_changes cell"

text \<open>Example tables and answers.\<close>

definition row_x_A :: name_row where
  "row_x_A = \<lparr>name_extracted = ''x'', canonical_F2 = Some ''A'',
              canonical_F2c = None, canonical_F2d = None\<rparr>"

definition chain_B_first :: "(string \<times> string) list" where
  "chain_B_first = [(''B'', ''C''), (''A'', ''B'')]"

definition chain_A_first :: "(string \<times> string) list" where
  "chain_A_first = [(''A'', ''B''), (''B'', ''C'')]"

definition row_alice :: name_row where
  "row_alice = \<lparr>name_extracted = ''Alice'', canonical_F2 = None,
                canonical_F2c = None, canonical_F2d = None\<rparr>"

definition answers_about_bob :: "(string \<times> string list) list option list" where
  "answers_about_bob = [None, Some [(''Robert Smith'', [''Bob'', ''Bob Smith''])], Some []]"

definition mapping_without_alice :: "string \<rightharpoonup> string option" where
  "mapping_without_alice = [''Bob'' \<mapsto> Some ''Robert Smith'']"

definition merge_A_into_B :: "(string \<times> string) list" where
  "merge_A_into_B = [(''A'', ''B'')]"

definition merge_A_into_C :: "(string \<times> string) list" where
  "merge_A_into_C = [(''A'', ''C'')]"

definition merge_A_B_into_C :: "(string \<times> string) list" where
  "merge_A_B_into_C = [(''A'', ''C''), (''B'', ''C'')]"

definition merge_D_into_E :: "(string \<times> string) list" where
  "merge_D_into_E = [(''D'', ''E'')]"

section \<open>scripts/final/build\_network.py: counting and the co-occurrence graph\<close>

text \<open>
  A row of \<open>FINAL_2_CLASSIFIER_name_extraction\<close>, with the columns the counting and the
  edges read.  \<open>thread_id\<close> is the primary key of the table.  \<open>names_mentioned\<close> is
  the parsed JSON list of the cell \<open>names_mentioned [F1]\<close>; it is \<open>None\<close> when the cell
  is NULL or empty or does not parse, in which case the scripts skip the row's names.
\<close>

record email =
  thread_id :: string
  body :: "string option"
  names_mentioned :: "string list option"

text \<open>Lines 75-85: the set of consolidated persons of one email.\<close>

definition all_persons :: "(string \<rightharpoonup> string option) \<Rightarrow> email \<Rightarrow> string set" where
  "all_persons name_mapping e =
     (case names_mentioned e of
        None \<Rightarrow> {}
      | Some names \<Rightarrow>
          set (filter (\<lambda>consolidated. consolidated \<noteq> [] \<and> consolidated \<noteq> ''Jeffrey Epstein'')
                (List.map_filter (consolidate_name name_mapping) names)))"

text \<open>
  \<open>person_counts\<close> is a \<open>Counter\<close>: a key that was never counted reads as 0, so it is a
  function into \<open>nat\<close> and its keys are the persons with a positive count.  Lines 88-89,
  \<open>for p in all_persons: person_counts[p] += 1\<close>, add one for every member of the set,
  in whatever order the set is iterated.
\<close>

definition count_persons :: "string set \<Rightarrow> (string \<Rightarrow> nat) \<Rightarrow> (string \<Rightarrow> nat)" where
  "count_persons persons counts = (\<lambda>p. if p \<in> persons then counts p + 1 else counts p)"

definition person_counts :: "string set list \<Rightarrow> string \<Rightarrow> nat" where
  "person_counts threads = fold count_persons threads (\<lambda>p. 0)"

text \<open>
  Line 94, \<open>{p for p, count in person_counts.items() if count >= 4}\<close>.  The set is
  only ever tested for membership, \<open>p in valid_persons\<close>, and is modelled as that test.
\<close>

definition valid_persons :: "(string \<Rightarrow> nat) \<Rightarrow> string \<Rightarrow> bool" where
  "valid_persons counts p \<longleftrightarrow> 4 \<le> counts p"

text \<open>\<open>itertools.combinations(xs, 2)\<close>: the pairs of positions \<open>i < j\<close>, in order.\<close>

fun combinations2 :: "'a list \<Rightarrow> ('a \<times> 'a) list" where
  "combinations2 [] = []"
| "combinations2 (x # xs) = map (Pair x) xs @ combinations2 xs"

text \<open>
  \<open>edges\<close> is a \<open>Counter\<close> keyed by pairs, kept as the dict it is: an association list
  with distinct keys in insertion order.  \<open>edges[k] += 1\<close> reads a missing key as 0.
\<close>

definition counter_incr :: "'k \<Rightarrow> ('k \<times> nat) list \<Rightarrow> ('k \<times> nat) list" where
  "counter_incr k c = AList.update k (case map_of c k of None \<Rightarrow> 1 | Some n \<Rightarrow> n + 1) c"

text \<open>Lines 102-107 for one email: the valid persons of the email, sorted, and one
  increment per pair.  The excerpts kept in \<open>edge_examples\<close> under the same keys are
  not modelled; they do not influence \<open>edges\<close> or the graph.\<close>

definition add_thread_edges ::
  "(string \<Rightarrow> bool) \<Rightarrow> string set \<Rightarrow> ((string \<times> string) \<times> nat) list \<Rightarrow> ((string \<times> string) \<times> nat) list" where
  "add_thread_edges valid persons edges =
     (let persons_in_email = Set.filter valid persons;
          persons_list = sorted_list_of_set persons_in_email
      in fold counter_incr (combinations2 persons_list) edges)"

definition build_edges :: "(string \<Rightarrow> bool) \<Rightarrow> string set list \<Rightarrow> ((string \<times> string) \<times> nat) list" where
  "build_edges valid threads = fold (add_thread_edges valid) threads []"

text \<open>
  \<open>networkx.Graph\<close>: the nodes in insertion order and the symmetric adjacency
  \<open>adj[u][v]\<close>, here holding the weight attribute.  \<open>add_edge(u, v, weight=w)\<close> adds the
  two nodes when they are new and stores the weight under \<open>adj[u][v]\<close> and \<open>adj[v][u]\<close>.
\<close>

record nx_graph =
  nodes :: "string list"
  adj :: "string \<Rightarrow> string \<Rightarrow> nat option"

definition empty_graph :: nx_graph where
  "empty_graph = \<lparr>nodes = [], adj = (\<lambda>u v. None)\<rparr>"

definition add_node :: "string \<Rightarrow> string list \<Rightarrow> string list" where
  "add_node u ns = (if u \<in> set ns then ns else ns @ [u])"

definition add_edge :: "string \<Rightarrow> string \<Rightarrow> nat \<Rightarrow> nx_graph \<Rightarrow> nx_graph" where
  "add_edge u v w g =
     (let a1 = (adj g)(u := (adj g u)(v \<mapsto> w))
      in \<lparr>nodes = add_node v (add_node u (nodes g)), adj = a1(v := (a1 v)(u \<mapsto> w))\<rparr>)"

text \<open>\<open>nx.isolates(G)\<close>: the nodes without neighbour.\<close>

definition isolates :: "nx_graph \<Rightarrow> string list" where
  "isolates g = filter (\<lambda>n. \<forall>m \<in> set (nodes g). adj g n m = None) (nodes g)"

definition remove_nodes_from :: "string list \<Rightarrow> nx_graph \<Rightarrow> nx_graph" where
  "remove_nodes_from ns g =
     \<lparr>nodes = filter (\<lambda>n. n \<notin> set ns) (nodes g),
      adj = (\<lambda>u v. if u \<in> set ns \<or> v \<in> set ns then None else adj g u v)\<rparr>"

text \<open>
  Lines 114-119 of the final script and 98-104 of scripts/build\_network.py, which
  differ in the bound on the weight only: the edges of weight at least the bound enter
  the graph, then the isolates are removed.  The bound is the literal 1 in the final
  script and the literal 2 in scripts/build\_network.py; the two loops are the
  instances \<open>final_graph\<close> and \<open>old_graph\<close> below.
\<close>

definition graph_before_isolates :: "nat \<Rightarrow> ((string \<times> string) \<times> nat) list \<Rightarrow> nx_graph" where
  "graph_before_isolates min_edge_weight edges =
     fold (\<lambda>((p1, p2), weight) g. if min_edge_weight \<le> weight then add_edge p1 p2 weight g else g)
       edges empty_graph"

definition build_graph :: "nat \<Rightarrow> ((string \<times> string) \<times> nat) list \<Rightarrow> nx_graph" where
  "build_graph min_edge_weight edges =
     (let G = graph_before_isolates min_edge_weight edges
      in remove_nodes_from (isolates G) G)"



text \<open>The rows written to \<open>FINAL_5_network_edges\<close> (lines 174-180) and, with the test
  \<open>weight >= 2\<close>, to data/network\_edges.csv by scripts/build\_network.py (lines
  145-150).\<close>

definition saved_edges_final :: "nx_graph \<Rightarrow> ((string \<times> string) \<times> nat) list \<Rightarrow> ((string \<times> string) \<times> nat) list" where
  "saved_edges_final G edges =
     filter (\<lambda>((p1, p2), weight). p1 \<in> set (nodes G) \<and> p2 \<in> set (nodes G)) edges"








section \<open>scripts/final/create\_unique\_names.py: occurrences of the extracted names\<close>

text \<open>
  \<open>str.strip()\<close> removes the whitespace characters at both ends.  Among the ASCII
  characters Python's whitespace is tab, line feed, vertical tab, form feed, carriage
  return, the four separators 28-31 and the space.  Names are taken to be ASCII text;
  a character above 127 is treated as an ordinary non-space character.
\<close>

definition py_isspace :: "char \<Rightarrow> bool" where
  "py_isspace c \<longleftrightarrow>
     c \<in> set [CHR 0x09, CHR 0x0A, CHR 0x0B, CHR 0x0C, CHR 0x0D,
              CHR 0x1C, CHR 0x1D, CHR 0x1E, CHR 0x1F, CHR '' '']"

definition py_strip :: "string \<Rightarrow> string" where
  "py_strip s = rev (dropWhile py_isspace (rev (dropWhile py_isspace s)))"

text \<open>
  Lines 32-45.  \<open>name_threads\<close> maps a name to the set of the thread ids it was seen in;
  a name never seen has no entry, which reads here as the empty set.
\<close>

definition add_name_thread :: "string \<Rightarrow> string \<Rightarrow> (string \<Rightarrow> string set) \<Rightarrow> (string \<Rightarrow> string set)" where
  "add_name_thread tid name name_threads =
     (if name \<noteq> [] \<and> py_strip name \<noteq> []
      then name_threads(py_strip name := insert tid (name_threads (py_strip name)))
      else name_threads)"

definition name_threads :: "email list \<Rightarrow> string \<Rightarrow> string set" where
  "name_threads rows =
     fold (\<lambda>row nt. case names_mentioned row of
                       None \<Rightarrow> nt
                     | Some names \<Rightarrow> fold (add_name_thread (thread_id row)) names nt)
       rows (\<lambda>name. {})"

text \<open>Line 48: \<open>name_counts[name] = len(threads)\<close>.\<close>

definition name_counts :: "email list \<Rightarrow> string \<Rightarrow> nat" where
  "name_counts rows name = card (name_threads rows name)"

text \<open>The names a row contributes: its listed names, stripped, when not empty.\<close>

definition row_names :: "email \<Rightarrow> string set" where
  "row_names row =
     (case names_mentioned row of
        None \<Rightarrow> {}
      | Some names \<Rightarrow> set (filter (\<lambda>n. n \<noteq> []) (map py_strip names)))"

text \<open>The raw names a row lists: none when the cell is missing or does not parse.\<close>

definition listed_names :: "email \<Rightarrow> string list" where
  "listed_names e = (case names_mentioned e of None \<Rightarrow> [] | Some names \<Rightarrow> names)"

text \<open>
  Following the words of the specification, not the code: the threads in which a
  variant mapped to the entity \<open>p\<close> appears, a variant of \<open>p\<close> being a raw name that the
  name mapping sends to \<open>p\<close>.
\<close>

definition variant_threads :: "(string \<rightharpoonup> string option) \<Rightarrow> email list \<Rightarrow> string \<Rightarrow> string set" where
  "variant_threads name_mapping emails p =
     set (map thread_id
            (filter (\<lambda>e. \<exists>name \<in> set (listed_names e). name_mapping name = Some (Some p)) emails))"

text \<open>Two threads that list one variant each of the same entity, one of the variants
  being in the exclusion set.\<close>

definition geoff_mapping :: "string \<rightharpoonup> string option" where
  "geoff_mapping = [''Jeff'' \<mapsto> Some ''Geoffrey Smith'', ''Geoff'' \<mapsto> Some ''Geoffrey Smith'']"

definition geoff_threads :: "email list" where
  "geoff_threads =
     [\<lparr>thread_id = ''t1'', body = None, names_mentioned = Some [''Jeff'']\<rparr>,
      \<lparr>thread_id = ''t2'', body = None, names_mentioned = Some [''Geoff'']\<rparr>]"

text \<open>A corpus of three threads: X twice in thread 1 (once under the variant
  \<open>Mr X\<close>), once in thread 2, and not in thread 3.\<close>

definition three_threads :: "email list" where
  "three_threads =
     [\<lparr>thread_id = ''t1'', body = None, names_mentioned = Some [''X'', ''Mr X'', ''X'']\<rparr>,
      \<lparr>thread_id = ''t2'', body = None, names_mentioned = Some [''X'', ''Y'']\<rparr>,
      \<lparr>thread_id = ''t3'', body = None, names_mentioned = Some [''Y'']\<rparr>]"

definition mapping_X :: "string \<rightharpoonup> string option" where
  "mapping_X = [''X'' \<mapsto> Some ''X'', ''Mr X'' \<mapsto> Some ''X'', ''Y'' \<mapsto> Some ''Y'']"



text \<open>Four threads that all hold X and Y, the first listing X three times, and their
  edges and graph in the final script.\<close>

definition xy_emails :: "email list" where
  "xy_emails =
     [\<lparr>thread_id = ''t1'', body = None, names_mentioned = Some [''X'', ''Mr X'', ''X'', ''Y'']\<rparr>,
      \<lparr>thread_id = ''t2'', body = None, names_mentioned = Some [''Y'', ''X'']\<rparr>,
      \<lparr>thread_id = ''t3'', body = None, names_mentioned = Some [''X'', ''Y'']\<rparr>,
      \<lparr>thread_id = ''t4'', body = None, names_mentioned = Some [''Mr X'', ''Y'']\<rparr>]"

definition xy_edges :: "((string \<times> string) \<times> nat) list" where
  "xy_edges =
     build_edges (valid_persons (person_counts (map (all_persons mapping_X) xy_emails)))
       (map (all_persons mapping_X) xy_emails)"

definition xy_graph :: nx_graph where
  "xy_graph = build_graph 1 xy_edges"

section \<open>scripts/final/run\_name\_consolidation\_v4.py: suffix matching\<close>

text \<open>
  \<open>str.lower()\<close> on ASCII text maps the letters A-Z to a-z and leaves the rest.  In a
  regular expression over \<open>str\<close>, \<open>\w\<close> is a letter, a digit or the underscore and
  \<open>\s\<close> is a whitespace character; a character above 127 counts as a word character
  here (names are taken to be ASCII text).
\<close>

definition py_lower_char :: "char \<Rightarrow> char" where
  "py_lower_char c =
     (case map_of (zip ''ABCDEFGHIJKLMNOPQRSTUVWXYZ'' ''abcdefghijklmnopqrstuvwxyz'') c of
        Some l \<Rightarrow> l
      | None \<Rightarrow> c)"

definition py_lower :: "string \<Rightarrow> string" where
  "py_lower s = map py_lower_char s"











section \<open>scripts/final/run\_name\_consolidation\_v3.py: token matching\<close>

text \<open>\<open>re.findall(r'[a-z]+', s)\<close>: the maximal runs of the letters a-z, from left to
  right.  The first argument is the run being read.\<close>

definition is_az :: "char \<Rightarrow> bool" where
  "is_az c \<longleftrightarrow> c \<in> set ''abcdefghijklmnopqrstuvwxyz''"

fun az_runs :: "string \<Rightarrow> string \<Rightarrow> string list" where
  "az_runs cur [] = (if cur = [] then [] else [cur])"
| "az_runs cur (c # cs) =
     (if is_az c then az_runs (cur @ [c]) cs
      else (if cur = [] then [] else [cur]) @ az_runs [] cs)"

definition stopwords :: "string set" where
  "stopwords = {''jr'', ''sr'', ''ii'', ''iii'', ''iv'', ''dr'', ''mr'', ''ms'', ''mrs'', ''prof''}"

text \<open>Lines 73-82.\<close>

definition tokenize_name :: "string \<Rightarrow> string set" where
  "tokenize_name name =
     (let name_lower = py_lower name;
          tokens = az_runs [] name_lower;
          meaningful = filter (\<lambda>t. 1 < length t \<and> t \<notin> stopwords) tokens
      in set meaningful)"

text \<open>Lines 88-95: \<open>token_to_names[token]\<close> is the set of the input names that have the
  token; \<open>name_tokens[name]\<close> is \<open>tokenize_name name\<close>.\<close>

definition token_to_names :: "string list \<Rightarrow> string \<Rightarrow> string set" where
  "token_to_names names token = Set.filter (\<lambda>name. token \<in> tokenize_name name) (set names)"

text \<open>
  \<open>potential_groups\<close> is a \<open>defaultdict(set)\<close> keyed by the frozen set of shared
  tokens: an association list in insertion order.  Lines 122-123 add the two names to
  the set of the key, creating it when the key is new.
\<close>

definition group_add ::
  "string set \<Rightarrow> string \<Rightarrow> string \<Rightarrow> (string set \<times> string set) list \<Rightarrow> (string set \<times> string set) list" where
  "group_add group_key name1 name2 potential_groups =
     (case map_of potential_groups group_key of
        None \<Rightarrow> potential_groups @ [(group_key, {name1, name2})]
      | Some group_names \<Rightarrow>
          AList.update group_key (insert name2 (insert name1 group_names)) potential_groups)"

text \<open>Lines 108-123, the body of the innermost loop, on the state
  \<open>(potential_groups, processed_pairs)\<close>.\<close>

definition pair_step ::
  "string \<Rightarrow> string \<Rightarrow> (string set \<times> string set) list \<times> (string \<times> string) set
     \<Rightarrow> (string set \<times> string set) list \<times> (string \<times> string) set" where
  "pair_step name1 name2 st =
     (let (potential_groups, processed_pairs) = st
      in if name1 \<ge> name2 then st
         else if (name1, name2) \<in> processed_pairs then st
         else
           (let processed_pairs' = insert (name1, name2) processed_pairs;
                shared = tokenize_name name1 \<inter> tokenize_name name2
            in if 2 \<le> card shared
               then (group_add shared name1 name2 potential_groups, processed_pairs')
               else (potential_groups, processed_pairs')))"

text \<open>
  Python iterates a set in an order that the language does not fix.  The three sets
  iterated by the function are not modified while they are iterated, so each has one
  order: \<open>tok_order name\<close> for \<open>name_tokens[name]\<close>, \<open>name_order token\<close> for
  \<open>token_to_names[token]\<close> and \<open>group_order key\<close> for \<open>potential_groups[key]\<close>.  The
  orders are parameters of the model.
\<close>

text \<open>Lines 101-123 for one \<open>name1\<close>.\<close>

definition name_step ::
  "(string \<Rightarrow> string set \<Rightarrow> string list) \<Rightarrow> (string \<Rightarrow> string set \<Rightarrow> string list) \<Rightarrow> string list
     \<Rightarrow> string \<Rightarrow> (string set \<times> string set) list \<times> (string \<times> string) set
     \<Rightarrow> (string set \<times> string set) list \<times> (string \<times> string) set" where
  "name_step tok_order name_order names name1 st =
     (let tokens1 = tokenize_name name1
      in if card tokens1 < 2 then st
         else fold (\<lambda>token st'.
                      fold (pair_step name1) (name_order token (token_to_names names token)) st')
                (tok_order name1 tokens1) st)"

definition potential_groups ::
  "(string \<Rightarrow> string set \<Rightarrow> string list) \<Rightarrow> (string \<Rightarrow> string set \<Rightarrow> string list) \<Rightarrow> string list
     \<Rightarrow> (string set \<times> string set) list" where
  "potential_groups tok_order name_order names =
     fst (fold (name_step tok_order name_order names) names ([], {}))"

text \<open>Lines 129-134 for one item of the sorted dict, on the state \<open>(groups, seen_names)\<close>.\<close>

definition emit_group ::
  "(string set \<Rightarrow> string set \<Rightarrow> string list) \<Rightarrow> string set \<times> string set
     \<Rightarrow> string list list \<times> string set \<Rightarrow> string list list \<times> string set" where
  "emit_group group_order item st =
     (let (group_key, group_names) = item;
          (groups, seen_names) = st;
          new_names = filter (\<lambda>n. n \<notin> seen_names) (group_order group_key group_names)
      in if 2 \<le> length new_names then (groups @ [new_names], seen_names \<union> set new_names)
         else st)"

text \<open>Lines 85-136.  \<open>sorted(..., key=lambda x: -len(x[1]))\<close> is a stable sort, largest
  group first.\<close>

definition find_potential_duplicates ::
  "(string \<Rightarrow> string set \<Rightarrow> string list) \<Rightarrow> (string \<Rightarrow> string set \<Rightarrow> string list)
     \<Rightarrow> (string set \<Rightarrow> string set \<Rightarrow> string list) \<Rightarrow> string list \<Rightarrow> string list list" where
  "find_potential_duplicates tok_order name_order group_order names =
     fst (fold (emit_group group_order)
            (sort_key (\<lambda>(group_key, group_names). - int (card group_names))
               (potential_groups tok_order name_order names))
            ([], {}))"

text \<open>An instance of the orders, and an input.\<close>

definition sorted_order :: "'a \<Rightarrow> string set \<Rightarrow> string list" where
  "sorted_order x S = sorted_list_of_set S"

definition reordered_names :: "string list" where
  "reordered_names =
     [''John Smith'', ''Landon Thomas'', ''Thomas Jr. Landon'', ''Jane Doe'',
      ''Smith, John A.'', ''Dr. Thomas Landon III'']"

section \<open>Invariants used in the proofs\<close>

text \<open>The keys of \<open>edges\<close> are distinct sorted pairs, with positive counts.\<close>

definition edges_ok :: "((string \<times> string) \<times> nat) list \<Rightarrow> bool" where
  "edges_ok es \<longleftrightarrow> distinct (map fst es) \<and> (\<forall>((a, b), w) \<in> set es. a < b \<and> 0 < w)"


text \<open>The adjacency of a graph is symmetric and holds only weights of the given entries.\<close>

definition graph_ok :: "((string \<times> string) \<times> nat) set \<Rightarrow> nx_graph \<Rightarrow> bool" where
  "graph_ok S g \<longleftrightarrow>
     (\<forall>x y. adj g x y = adj g y x) \<and>
     (\<forall>x y w. adj g x y = Some w \<longrightarrow> ((x, y), w) \<in> S \<or> ((y, x), w) \<in> S)"

text \<open>Every potential group has a key of two tokens at least, which all its names have.\<close>

definition groups_ok :: "(string set \<times> string set) list \<Rightarrow> bool" where
  "groups_ok pg \<longleftrightarrow>
     (\<forall>(key, s) \<in> set pg. 2 \<le> card key \<and> finite s \<and> (\<forall>n \<in> s. key \<subseteq> tokenize_name n))"

text \<open>The emitted groups are disjoint lists of seen names, each with a common key.\<close>

definition emitted_ok :: "string list list \<times> string set \<Rightarrow> bool" where
  "emitted_ok st \<longleftrightarrow>
     (let (groups, seen_names) = st
      in distinct (concat groups) \<and> set (concat groups) \<subseteq> seen_names \<and>
         (\<forall>g \<in> set groups. 2 \<le> length g \<and>
            (\<exists>key. 2 \<le> card key \<and> (\<forall>n \<in> set g. key \<subseteq> tokenize_name n))))"

section \<open>Properties of consolidate\_name\<close>

lemma EXCLUDED_NAMES_nonempty_strings: "n \<in> EXCLUDED_NAMES \<Longrightarrow> n \<noteq> []"
  by (auto simp: EXCLUDED_NAMES_def)

text \<open>
  Claim C10.  In the final network build, \<open>consolidate_name\<close> returns no entity when
  the raw extracted name is in the exclusion set, whatever it is mapped to, and when
  the canonical name it is mapped to is in the exclusion set, whatever the raw string.
\<close>

theorem consolidate_name_excluded:
  assumes "name \<in> EXCLUDED_NAMES \<or> (\<exists>c. name_mapping name = Some (Some c) \<and> c \<in> EXCLUDED_NAMES)"
  shows "consolidate_name name_mapping name = None"
  using assms
  by (auto simp: consolidate_name_def py_get_def split: option.splits)

theorem consolidate_name_excluded_witness:
  "''Jeff'' \<in> EXCLUDED_NAMES \<and> ''Geoffrey Smith'' \<notin> EXCLUDED_NAMES
   \<and> consolidate_name [''Jeff'' \<mapsto> Some ''Geoffrey Smith''] ''Jeff'' = None
   \<and> ''The Financier'' \<notin> EXCLUDED_NAMES \<and> ''J. Epstein'' \<in> EXCLUDED_NAMES
   \<and> consolidate_name [''The Financier'' \<mapsto> Some ''J. Epstein''] ''The Financier'' = None"
proof -
  have raw: "''Jeff'' \<in> EXCLUDED_NAMES" and nraw: "''Geoffrey Smith'' \<notin> EXCLUDED_NAMES"
    and ncan: "''The Financier'' \<notin> EXCLUDED_NAMES" and can: "''J. Epstein'' \<in> EXCLUDED_NAMES"
    by (simp_all add: EXCLUDED_NAMES_def)
  have 1: "consolidate_name [''Jeff'' \<mapsto> Some ''Geoffrey Smith''] ''Jeff'' = None"
    using consolidate_name_excluded [of "''Jeff''" "[''Jeff'' \<mapsto> Some ''Geoffrey Smith'']"] raw
    by simp
  have 2: "consolidate_name [''The Financier'' \<mapsto> Some ''J. Epstein''] ''The Financier'' = None"
    using consolidate_name_excluded
      [of "''The Financier''" "[''The Financier'' \<mapsto> Some ''J. Epstein'']"] can
    by simp
  from raw nraw ncan can 1 2 show ?thesis by simp
qed

section \<open>Properties of the consolidation passes\<close>

text \<open>
  Claim C3, as stated, fails in the final network build: a raw name that the names table
  does not hold is dropped by \<open>consolidate_name\<close>, not kept as its own entity.
\<close>

theorem absent_name_dropped_counterexample:
  "mapping_without_alice ''Alice'' = None
   \<and> consolidate_name mapping_without_alice ''Alice'' = None
   \<and> consolidate_name mapping_without_alice ''Alice'' \<noteq> Some ''Alice''"
  by (simp add: mapping_without_alice_def consolidate_name_def py_get_def)

subsection \<open>The first pass\<close>

lemma variants_of_Nil [simp]: "variants_of [] = {}"
  by (simp add: variants_of_def)

lemma variants_of_update:
  "map_of m k = Some vs \<Longrightarrow> variants_of (AList.update k (vs @ new) m) = variants_of m \<union> set new"
  by (induction m) (auto simp: variants_of_def split: if_splits)

lemma variants_of_merge_answer:
  "variants_of (merge_answer r m) = variants_of m \<union> variants_of r"
  unfolding merge_answer_def
proof (induction r arbitrary: m)
  case Nil
  show ?case by (simp add: variants_of_def)
next
  case (Cons p r)
  obtain c vs where p: "p = (c, vs)" by (cases p)
  have step: "variants_of (case map_of m c of Some old \<Rightarrow> AList.update c (old @ vs) m
                | None \<Rightarrow> m @ [(c, vs)]) = variants_of m \<union> set vs"
  proof (cases "map_of m c")
    case None
    then show ?thesis by (auto simp: variants_of_def)
  next
    case (Some old)
    then show ?thesis by (simp add: variants_of_update)
  qed
  show ?case unfolding p fold_simps prod.case Cons.IH step
    by (auto simp: variants_of_def)
qed

lemma merge_answer_nonempty: "r \<noteq> [] \<Longrightarrow> merge_answer r m \<noteq> []"
  unfolding merge_answer_def
proof (induction r arbitrary: m)
  case Nil
  then show ?case by simp
next
  case (Cons p r)
  obtain c vs where p: "p = (c, vs)" by (cases p)
  show ?case
  proof (cases "r = []")
    case True
    then show ?thesis unfolding p by (simp split: option.splits)
  next
    case False
    then show ?thesis using Cons.IH by simp
  qed
qed

lemma variants_of_fold_results:
  "variants_of (fold (\<lambda>result m. case result of None \<Rightarrow> m
                      | Some r \<Rightarrow> if r \<noteq> [] then merge_answer r m else m) results m)
     = variants_of m \<union> listed_variants results"
proof (induction results arbitrary: m)
  case Nil
  show ?case by (simp add: listed_variants_def)
next
  case (Cons res results)
  have l: "listed_variants (res # results) =
      (case res of None \<Rightarrow> {} | Some r \<Rightarrow> variants_of r) \<union> listed_variants results"
    by (simp add: listed_variants_def)
  show ?case unfolding fold_simps Cons.IH l
    by (cases res) (auto simp: variants_of_merge_answer)
qed

lemma variants_of_consolidation_map:
  "variants_of (consolidation_map results) = listed_variants results"
proof -
  have "variants_of [] = {}" by (simp add: variants_of_def)
  then show ?thesis by (simp add: consolidation_map_def variants_of_fold_results)
qed

lemma fold_results_nonempty:
  "m \<noteq> [] \<Longrightarrow> fold (\<lambda>result m. case result of None \<Rightarrow> m
                      | Some r \<Rightarrow> if r \<noteq> [] then merge_answer r m else m) results m \<noteq> []"
  by (induction results arbitrary: m) (auto simp: merge_answer_nonempty split: option.splits)

lemma consolidation_map_empty_iff:
  "consolidation_map results = [] \<longleftrightarrow> (\<forall>result \<in> set results. result = None \<or> result = Some [])"
  unfolding consolidation_map_def
proof (induction results)
  case Nil
  show ?case by simp
next
  case (Cons res results)
  show ?case
  proof (cases "res = None \<or> res = Some []")
    case True
    then show ?thesis using Cons.IH by auto
  next
    case False
    then obtain r where r: "res = Some r" "r \<noteq> []" by (cases res) auto
    have "fold (\<lambda>result m. case result of None \<Rightarrow> m
                      | Some r \<Rightarrow> if r \<noteq> [] then merge_answer r m else m) results (merge_answer r []) \<noteq> []"
      by (rule fold_results_nonempty) (rule merge_answer_nonempty [OF r(2)])
    then show ?thesis using r by simp
  qed
qed

lemma fold_variants_None:
  "fold (\<lambda>variant m'. m'(variant \<mapsto> c)) vs m name = None \<longleftrightarrow> m name = None \<and> name \<notin> set vs"
  by (induction vs arbitrary: m) auto

lemma variant_to_canonical_fold_None:
  "fold (\<lambda>(canonical, variants) m. fold (\<lambda>variant m'. m'(variant \<mapsto> canonical)) variants m) cmap m name = None
     \<longleftrightarrow> m name = None \<and> name \<notin> variants_of cmap"
proof (induction cmap arbitrary: m)
  case Nil
  show ?case by (simp add: variants_of_def)
next
  case (Cons p cmap)
  obtain c vs where p: "p = (c, vs)" by (cases p)
  show ?case unfolding p fold_simps prod.case Cons.IH fold_variants_None
    by (auto simp: variants_of_def)
qed

lemma variant_to_canonical_None:
  "variant_to_canonical cmap name = None \<longleftrightarrow> name \<notin> variants_of cmap"
  by (simp add: variant_to_canonical_def variant_to_canonical_fold_None)

text \<open>
  Claim C3, amended.  In the first consolidation pass, when at least one oracle answer
  is not empty, a raw name that no answer lists as a variant gets itself as canonical
  name; when every answer failed or is empty, the pass returns before it writes any
  canonical name.  In the final network build \<open>consolidate_name\<close> returns no entity for
  a raw name absent from the name mapping: the mention is dropped, and no error is
  raised.
\<close>

theorem absent_name_canonical:
  "(consolidation_map results \<noteq> [] \<and> r \<in> set name_rows
      \<and> name_extracted r \<notin> listed_variants results
     \<longrightarrow> (\<exists>tbl. first_pass results name_rows = Some tbl
            \<and> map name_extracted tbl = map name_extracted name_rows
            \<and> r\<lparr>canonical_F2 := Some (name_extracted r)\<rparr> \<in> set tbl))
   \<and> ((\<forall>result \<in> set results. result = None \<or> result = Some [])
     \<longrightarrow> first_pass results name_rows = None)
   \<and> (name_mapping name = None \<longrightarrow> consolidate_name name_mapping name = None)"
proof -
  have 1: "\<exists>tbl. first_pass results name_rows = Some tbl
            \<and> map name_extracted tbl = map name_extracted name_rows
            \<and> r\<lparr>canonical_F2 := Some (name_extracted r)\<rparr> \<in> set tbl"
    if ne: "consolidation_map results \<noteq> []" and r: "r \<in> set name_rows"
      and nl: "name_extracted r \<notin> listed_variants results"
  proof -
    have "variant_to_canonical (consolidation_map results) (name_extracted r) = None"
      using nl by (simp add: variant_to_canonical_None variants_of_consolidation_map)
    then have "r\<lparr>canonical_F2 := Some (name_extracted r)\<rparr>
        \<in> set (map (\<lambda>r. r\<lparr>canonical_F2 :=
                              Some (py_get_default (variant_to_canonical (consolidation_map results))
                                      (name_extracted r) (name_extracted r))\<rparr>) name_rows)"
      using r by (force simp: py_get_default_def)
    then show ?thesis using ne by (simp add: first_pass_def Let_def o_def)
  qed
  have 2: "first_pass results name_rows = None"
    if "\<forall>result \<in> set results. result = None \<or> result = Some []"
    using that by (simp add: first_pass_def consolidation_map_empty_iff)
  have 3: "consolidate_name name_mapping name = None" if "name_mapping name = None"
    using that by (simp add: consolidate_name_def py_get_def)
  from 1 2 3 show ?thesis by blast
qed

theorem absent_name_canonical_witness:
  "consolidation_map answers_about_bob \<noteq> []
   \<and> row_alice \<in> set [row_alice]
   \<and> name_extracted row_alice \<notin> listed_variants answers_about_bob
   \<and> (\<exists>tbl. first_pass answers_about_bob [row_alice] = Some tbl
         \<and> map name_extracted tbl = map name_extracted [row_alice]
         \<and> row_alice\<lparr>canonical_F2 := Some (name_extracted row_alice)\<rparr> \<in> set tbl)
   \<and> first_pass [None, Some []] [row_alice] = None
   \<and> mapping_without_alice ''Alice'' = None
   \<and> consolidate_name mapping_without_alice ''Alice'' = None"
proof -
  have a: "consolidation_map answers_about_bob \<noteq> []"
    by (simp add: consolidation_map_def answers_about_bob_def merge_answer_def)
  have b: "name_extracted row_alice \<notin> listed_variants answers_about_bob"
    by (simp add: listed_variants_def variants_of_def answers_about_bob_def row_alice_def)
  have c: "\<forall>result \<in> set [None, Some ([] :: (string \<times> string list) list)].
      result = None \<or> result = Some []"
    by simp
  have d: "mapping_without_alice ''Alice'' = None"
    by (simp add: mapping_without_alice_def)
  note t1 = absent_name_canonical [of answers_about_bob row_alice "[row_alice]"]
  note t2 = absent_name_canonical
    [of "[None, Some []]" row_alice "[row_alice]" mapping_without_alice "''Alice''"]
  have 1: "\<exists>tbl. first_pass answers_about_bob [row_alice] = Some tbl
         \<and> map name_extracted tbl = map name_extracted [row_alice]
         \<and> row_alice\<lparr>canonical_F2 := Some (name_extracted row_alice)\<rparr> \<in> set tbl"
    using t1 a b by simp
  have 2: "first_pass [None, Some []] [row_alice] = None"
    using t2 c by blast
  have 3: "consolidate_name mapping_without_alice ''Alice'' = None"
    using t2 d by blast
  from a b 1 2 3 d show ?thesis by simp
qed

subsection \<open>The UPDATE loop, cell by cell\<close>

lemma change_cell_Nil [simp]: "change_cell [] c = c"
  by (simp add: change_cell_def)

lemma change_cell_Cons [simp]:
  "change_cell ((old, new) # cs) c = change_cell cs (update_where_eq new old c)"
  by (simp add: change_cell_def)

lemma change_cell_None [simp]: "change_cell cs None = None"
  by (induction cs) (auto simp: update_where_eq_def)

lemma change_cell_eq_None [simp]: "change_cell cs c = None \<longleftrightarrow> c = None"
proof (induction cs arbitrary: c)
  case Nil
  show ?case by simp
next
  case (Cons p cs)
  obtain old new where p: "p = (old, new)" by (cases p)
  show ?case unfolding p change_cell_Cons Cons.IH by (simp add: update_where_eq_def)
qed

lemma change_cell_not_key: "x \<notin> fst ` set cs \<Longrightarrow> change_cell cs (Some x) = Some x"
  by (induction cs) (auto simp: update_where_eq_def)

lemma fold_F2_cells:
  "fold (\<lambda>(old_name, new_name) t.
           map (\<lambda>r. r\<lparr>canonical_F2 := update_where_eq new_name old_name (canonical_F2 r)\<rparr>) t) cs tbl
   = map (\<lambda>r. r\<lparr>canonical_F2 := change_cell cs (canonical_F2 r)\<rparr>) tbl"
  by (induction cs arbitrary: tbl) (auto simp: o_def)

lemma fold_F2c_cells:
  "fold (\<lambda>(old_name, new_name) t.
           map (\<lambda>r. r\<lparr>canonical_F2c := update_where_eq new_name old_name (canonical_F2c r)\<rparr>) t) cs tbl
   = map (\<lambda>r. r\<lparr>canonical_F2c := change_cell cs (canonical_F2c r)\<rparr>) tbl"
  by (induction cs arbitrary: tbl) (auto simp: o_def)

lemma fold_F2d_cells:
  "fold (\<lambda>(old_name, new_name) t.
           map (\<lambda>r. r\<lparr>canonical_F2d := update_where_eq new_name old_name (canonical_F2d r)\<rparr>) t) cs tbl
   = map (\<lambda>r. r\<lparr>canonical_F2d := change_cell cs (canonical_F2d r)\<rparr>) tbl"
  by (induction cs arbitrary: tbl) (auto simp: o_def)

lemma apply_changes_v2_row:
  "apply_changes_v2 cs tbl = map (\<lambda>r. r\<lparr>canonical_F2 := change_cell cs (canonical_F2 r)\<rparr>) tbl"
  by (simp add: apply_changes_v2_def fold_F2_cells)

lemma apply_changes_v3_row:
  "apply_changes_v3 cs tbl =
     map (\<lambda>r. r\<lparr>canonical_F2c :=
                 change_cell cs (if canonical_F2c r = None then canonical_F2 r else canonical_F2c r)\<rparr>) tbl"
  by (auto simp: apply_changes_v3_def fold_F2c_cells copy_F2_to_F2c_def)

lemma apply_changes_v4_row:
  "apply_changes_v4 cs tbl =
     map (\<lambda>r. r\<lparr>canonical_F2d :=
                 change_cell cs (if canonical_F2d r = None then canonical_F2c r else canonical_F2d r)\<rparr>) tbl"
  by (auto simp: apply_changes_v4_def fold_F2d_cells copy_F2c_to_F2d_def)

lemma change_cell_lookup:
  assumes "distinct (map fst cs)"
    and "\<forall>(old, new) \<in> set cs. new = old \<or> new \<notin> fst ` set cs"
  shows "change_cell cs (Some x) = Some (case map_of cs x of None \<Rightarrow> x | Some n \<Rightarrow> n)"
  using assms
proof (induction cs arbitrary: x)
  case Nil
  show ?case by simp
next
  case (Cons p cs)
  obtain old new where p: "p = (old, new)" by (cases p)
  have d: "distinct (map fst cs)" and o: "old \<notin> fst ` set cs"
    using Cons.prems(1) p by auto
  have c: "\<forall>(old, new) \<in> set cs. new = old \<or> new \<notin> fst ` set cs"
    using Cons.prems(2) by auto
  show ?case
  proof (cases "x = old")
    case True
    have "new \<notin> fst ` set cs" using Cons.prems(2) p o by auto
    then show ?thesis using True p by (simp add: update_where_eq_def change_cell_not_key)
  next
    case False
    then show ?thesis using p Cons.IH [OF d c, of x] by (simp add: update_where_eq_def)
  qed
qed

lemma change_cell_twice:
  assumes "distinct (map fst cs)"
    and "\<forall>(old, new) \<in> set cs. new = old \<or> new \<notin> fst ` set cs"
  shows "change_cell cs (change_cell cs c) = change_cell cs c"
proof (cases c)
  case None
  then show ?thesis by simp
next
  case (Some x)
  show ?thesis
  proof (cases "map_of cs x")
    case None
    then show ?thesis using Some assms by (simp add: change_cell_lookup)
  next
    case (Some n)
    then have "(x, n) \<in> set cs" by (rule map_of_SomeD)
    then have "n = x \<or> n \<notin> fst ` set cs" using assms(2) by auto
    then have "map_of cs n = None \<or> map_of cs n = Some n"
      using Some by (auto simp: map_of_eq_None_iff)
    then show ?thesis using Some \<open>c = Some x\<close> assms by (auto simp: change_cell_lookup)
  qed
qed

lemma change_cell_order:
  assumes "distinct (map fst cs)"
    and "\<forall>(old, new) \<in> set cs. new = old \<or> new \<notin> fst ` set cs"
    and "distinct (map fst cs')" and "set cs' = set cs"
  shows "change_cell cs' c = change_cell cs c"
proof (cases c)
  case None
  then show ?thesis by simp
next
  case (Some x)
  have m: "map_of cs' = map_of cs"
    using assms(1,3,4) by (simp add: map_of_inject_set)
  have "\<forall>(old, new) \<in> set cs'. new = old \<or> new \<notin> fst ` set cs'"
    using assms(2,4) by simp
  then show ?thesis using Some assms(1,2,3) m by (simp add: change_cell_lookup)
qed

text \<open>
  Claim C1, as stated, fails: when a new name of the answer set is itself an old name of
  it, the pass applied twice goes one step further along the chain than applied once,
  and the result depends on the order of the pairs.
\<close>

theorem merge_application_counterexample:
  "apply_changes_v3 chain_B_first (apply_changes_v3 chain_B_first [row_x_A])
     \<noteq> apply_changes_v3 chain_B_first [row_x_A]
   \<and> set chain_A_first = set chain_B_first
   \<and> apply_changes_v3 chain_A_first [row_x_A] \<noteq> apply_changes_v3 chain_B_first [row_x_A]
   \<and> apply_changes_v2 chain_B_first (apply_changes_v2 chain_B_first [row_x_A])
     \<noteq> apply_changes_v2 chain_B_first [row_x_A]
   \<and> apply_changes_v2 chain_A_first [row_x_A] \<noteq> apply_changes_v2 chain_B_first [row_x_A]"
  by (auto simp: apply_changes_v3_def apply_changes_v2_def copy_F2_to_F2c_def chain_A_first_def
      chain_B_first_def row_x_A_def update_where_eq_def)

text \<open>
  Claim C1, amended.  For an answer set with distinct old names in which no new name is
  the old name of another pair, applying the set a second time changes nothing, and
  every order of the same pairs gives the same table; this holds for the in-place pass
  v2 and for the pass v3 that writes the column F2c.
\<close>

theorem merge_application_idempotent:
  assumes "distinct (map fst cs)"
    and "\<forall>(old, new) \<in> set cs. new = old \<or> new \<notin> fst ` set cs"
    and "distinct (map fst cs')" and "set cs' = set cs"
  shows "apply_changes_v2 cs (apply_changes_v2 cs tbl) = apply_changes_v2 cs tbl
       \<and> apply_changes_v2 cs' tbl = apply_changes_v2 cs tbl
       \<and> apply_changes_v3 cs (apply_changes_v3 cs tbl) = apply_changes_v3 cs tbl
       \<and> apply_changes_v3 cs' tbl = apply_changes_v3 cs tbl"
proof -
  note tw = change_cell_twice [OF assms(1,2)]
  note ord = change_cell_order [OF assms]
  have 1: "apply_changes_v2 cs (apply_changes_v2 cs tbl) = apply_changes_v2 cs tbl"
    by (simp add: apply_changes_v2_row o_def tw)
  have 2: "apply_changes_v2 cs' tbl = apply_changes_v2 cs tbl"
    by (simp add: apply_changes_v2_row ord)
  have 3: "apply_changes_v3 cs (apply_changes_v3 cs tbl) = apply_changes_v3 cs tbl"
    by (simp add: apply_changes_v3_row o_def tw)
  have 4: "apply_changes_v3 cs' tbl = apply_changes_v3 cs tbl"
    by (simp add: apply_changes_v3_row ord)
  from 1 2 3 4 show ?thesis by simp
qed

theorem merge_application_idempotent_witness:
  "distinct (map fst merge_A_B_into_C)
   \<and> set (rev merge_A_B_into_C) = set merge_A_B_into_C
   \<and> apply_changes_v2 merge_A_B_into_C (apply_changes_v2 merge_A_B_into_C [row_x_A])
       = apply_changes_v2 merge_A_B_into_C [row_x_A]
   \<and> apply_changes_v2 (rev merge_A_B_into_C) [row_x_A] = apply_changes_v2 merge_A_B_into_C [row_x_A]
   \<and> apply_changes_v3 merge_A_B_into_C (apply_changes_v3 merge_A_B_into_C [row_x_A])
       = apply_changes_v3 merge_A_B_into_C [row_x_A]
   \<and> apply_changes_v3 (rev merge_A_B_into_C) [row_x_A] = apply_changes_v3 merge_A_B_into_C [row_x_A]"
proof -
  have h1: "distinct (map fst merge_A_B_into_C)"
    by (simp add: merge_A_B_into_C_def)
  have h2: "\<forall>(old, new) \<in> set merge_A_B_into_C. new = old \<or> new \<notin> fst ` set merge_A_B_into_C"
    by (simp add: merge_A_B_into_C_def)
  have h3: "distinct (map fst (rev merge_A_B_into_C))"
    by (simp add: merge_A_B_into_C_def)
  have h4: "set (rev merge_A_B_into_C) = set merge_A_B_into_C"
    by simp
  from merge_application_idempotent [OF h1 h2 h3 h4, of "[row_x_A]"] h1 h4
  show ?thesis by simp
qed

text \<open>
  Claim C2, as stated, fails for the second pass: v2 rewrites the column F2 it was given,
  so the canonical value of a raw name under the input generation changes.
\<close>

theorem pass_v2_mutates_input_counterexample:
  "map canonical_F2 (apply_changes_v2 merge_A_into_B [row_x_A]) = [Some ''B'']
   \<and> map canonical_F2 [row_x_A] = [Some ''A'']
   \<and> map canonical_F2 (apply_changes_v2 merge_A_into_B [row_x_A]) \<noteq> map canonical_F2 [row_x_A]"
  by (simp add: apply_changes_v2_def merge_A_into_B_def row_x_A_def update_where_eq_def)

text \<open>
  Claim C2, amended.  The passes v3 and v4 write a new column (F2c from F2, F2d from F2c)
  and leave every earlier column as it was: for every row the raw name and its canonical
  value under the input generation are unchanged.  The pass v2 updates the column F2 in
  place.
\<close>

theorem later_passes_keep_input_generation:
  "map name_extracted (apply_changes_v3 cs tbl) = map name_extracted tbl
   \<and> map canonical_F2 (apply_changes_v3 cs tbl) = map canonical_F2 tbl
   \<and> map name_extracted (apply_changes_v4 cs tbl) = map name_extracted tbl
   \<and> map canonical_F2 (apply_changes_v4 cs tbl) = map canonical_F2 tbl
   \<and> map canonical_F2c (apply_changes_v4 cs tbl) = map canonical_F2c tbl
   \<and> map canonical_F2 (apply_changes_v2 cs tbl) = map (change_cell cs \<circ> canonical_F2) tbl"
  by (simp add: apply_changes_v2_row apply_changes_v3_row apply_changes_v4_row o_def)

subsection \<open>Collecting the answers of the batches\<close>

lemma py_update_Nil [simp]: "py_update d [] = d"
  by (simp add: py_update_def)

lemma py_update_Cons [simp]: "py_update d ((k, v) # cs) = py_update (AList.update k v d) cs"
  by (simp add: py_update_def)

lemma map_of_py_update:
  "map_of (py_update d cs) k = (case map_of (rev cs) k of None \<Rightarrow> map_of d k | Some v \<Rightarrow> Some v)"
proof (induction cs arbitrary: d)
  case Nil
  show ?case by simp
next
  case (Cons p cs)
  obtain k' v' where p: "p = (k', v')" by (cases p)
  show ?case unfolding p py_update_Cons Cons.IH
    by (simp add: update_conv' map_add_def split: option.splits)
qed

lemma distinct_py_update: "distinct (map fst d) \<Longrightarrow> distinct (map fst (py_update d cs))"
proof (induction cs arbitrary: d)
  case Nil
  then show ?case by simp
next
  case (Cons p cs)
  obtain k' v' where p: "p = (k', v')" by (cases p)
  show ?case unfolding p py_update_Cons
    by (rule Cons.IH) (simp add: distinct_update Cons.prems)
qed

lemma collect_from_Nil: "collect_from acc [] = acc"
  by (simp add: collect_from_def)

lemma collect_from_Cons: "collect_from acc (r # rs) = collect_from (py_update acc r) rs"
  by (cases r) (simp_all add: collect_from_def)

lemma map_of_collect_from:
  "map_of (collect_from acc rs) k =
     (case map_of (rev (concat rs)) k of None \<Rightarrow> map_of acc k | Some v \<Rightarrow> Some v)"
proof (induction rs arbitrary: acc)
  case Nil
  show ?case by (simp add: collect_from_Nil)
next
  case (Cons r rs)
  show ?case unfolding collect_from_Cons Cons.IH
    by (simp add: map_of_py_update map_add_def split: option.splits)
qed

lemma distinct_collect_from:
  "distinct (map fst acc) \<Longrightarrow> distinct (map fst (collect_from acc rs))"
proof (induction rs arbitrary: acc)
  case Nil
  then show ?case by (simp add: collect_from_Nil)
next
  case (Cons r rs)
  show ?case unfolding collect_from_Cons
    by (rule Cons.IH) (rule distinct_py_update [OF Cons.prems])
qed

lemma map_of_collect_changes: "map_of (collect_changes rs) k = map_of (rev (concat rs)) k"
  using map_of_collect_from [of "[]" rs k]
  by (simp add: collect_changes_def collect_from_def split: option.splits)

lemma distinct_collect_changes: "distinct (map fst (collect_changes rs))"
  using distinct_collect_from [of "[]" rs]
  by (simp add: collect_changes_def collect_from_def)

text \<open>
  Claim C4, as stated, fails: when two answers of one run give the same old name two
  different new names, \<open>all_changes\<close> ends up exactly as if only the later answer had
  been given.  The later assignment is applied, not rejected, and nothing in the
  result tells the conflicting run from a run without conflict.
\<close>

theorem conflicting_merge_counterexample:
  "collect_changes [merge_A_into_B, merge_A_into_C] = [(''A'', ''C'')]
   \<and> collect_changes [merge_A_into_B, merge_A_into_C] = collect_changes [merge_A_into_C]
   \<and> apply_changes_v3 (collect_changes [merge_A_into_B, merge_A_into_C]) [row_x_A]
       = apply_changes_v3 (collect_changes [merge_A_into_C]) [row_x_A]"
  by (simp add: collect_changes_def collect_from_def merge_A_into_B_def merge_A_into_C_def)

text \<open>
  Claim C4, amended.  When an old name is given a new name by several answers of one
  run, the assignment of the last answer that mentions it replaces the earlier ones in
  \<open>all_changes\<close> (last write wins); \<open>all_changes\<close> keeps one entry per old name and
  records no conflict.
\<close>

theorem later_answer_wins:
  assumes "(old_name, new_name) \<in> set r" and "distinct (map fst r)"
    and "\<forall>r' \<in> set later. old_name \<notin> fst ` set r'"
  shows "map_of (collect_changes (earlier @ r # later)) old_name = Some new_name
       \<and> distinct (map fst (collect_changes (earlier @ r # later)))"
proof -
  have 1: "map_of (rev (concat later)) old_name = None"
    using assms(3) by (auto simp: map_of_eq_None_iff)
  have "distinct (map fst (rev r))"
    using assms(2) by (simp add: rev_map [symmetric])
  then have 2: "map_of (rev r) old_name = Some new_name"
    using assms(1) by simp
  have "map_of (rev (concat (earlier @ r # later))) old_name = Some new_name"
    using 1 2 by (simp add: map_add_def)
  then show ?thesis
    by (simp only: map_of_collect_changes distinct_collect_changes simp_thms)
qed

theorem later_answer_wins_witness:
  "(''A'', ''C'') \<in> set merge_A_into_C \<and> distinct (map fst merge_A_into_C)
   \<and> map_of (collect_changes ([merge_A_into_B] @ merge_A_into_C # [merge_D_into_E])) ''A'' = Some ''C''
   \<and> distinct (map fst (collect_changes ([merge_A_into_B] @ merge_A_into_C # [merge_D_into_E])))"
proof -
  have h1: "(''A'', ''C'') \<in> set merge_A_into_C"
    by (simp add: merge_A_into_C_def)
  have h2: "distinct (map fst merge_A_into_C)"
    by (simp add: merge_A_into_C_def)
  have h3: "\<forall>r' \<in> set [merge_D_into_E]. ''A'' \<notin> fst ` set r'"
    by (simp add: merge_D_into_E_def)
  from later_answer_wins [OF h1 h2 h3, of "[merge_A_into_B]"] h1 h2
  show ?thesis by simp
qed

section \<open>Properties of the occurrence counts\<close>

lemma fold_count_persons:
  "fold count_persons threads c p = c p + length (filter (\<lambda>s. p \<in> s) threads)"
  by (induction threads arbitrary: c) (simp_all add: count_persons_def)

lemma person_counts_length:
  "person_counts threads p = length (filter (\<lambda>s. p \<in> s) threads)"
  by (simp add: person_counts_def fold_count_persons)

lemma length_filter_card_key:
  assumes "distinct (map f xs)"
  shows "length (filter P xs) = card {f x |x. x \<in> set xs \<and> P x}"
proof -
  have d: "distinct xs" using assms by (simp add: distinct_map)
  have inj: "inj_on f (set xs)" using assms by (simp add: distinct_map)
  have "{f x |x. x \<in> set xs \<and> P x} = f ` set (filter P xs)" by auto
  moreover have "inj_on f (set (filter P xs))" using inj by (rule inj_on_subset) auto
  ultimately have "card {f x |x. x \<in> set xs \<and> P x} = card (set (filter P xs))"
    by (simp add: card_image)
  also have "\<dots> = length (filter P xs)"
    by (rule distinct_card) (simp add: d)
  finally show ?thesis by simp
qed

lemma set_map_filter_eq: "set (List.map_filter f xs) = {y. \<exists>x \<in> set xs. f x = Some y}"
  by (induction xs) (auto split: option.splits)

lemma in_all_persons:
  "p \<in> all_persons nm e \<longleftrightarrow>
     p \<noteq> [] \<and> p \<noteq> ''Jeffrey Epstein'' \<and>
     (\<exists>names name. names_mentioned e = Some names \<and> name \<in> set names \<and> consolidate_name nm name = Some p)"
  by (auto simp: all_persons_def set_map_filter_eq split: option.splits)

lemma fold_add_name_thread:
  "fold (add_name_thread tid) names nt n =
     nt n \<union> (if n \<in> set (filter (\<lambda>n. n \<noteq> []) (map py_strip names)) then {tid} else {})"
proof (induction names arbitrary: nt)
  case Nil
  show ?case by simp
next
  case (Cons x xs)
  have e: "py_strip [] = []" by (simp add: py_strip_def)
  show ?case unfolding fold_simps Cons.IH
    using e by (auto simp: add_name_thread_def)
qed

lemma fold_rows_name_threads:
  "fold (\<lambda>row nt. case names_mentioned row of None \<Rightarrow> nt
           | Some names \<Rightarrow> fold (add_name_thread (thread_id row)) names nt) rows nt n
   = nt n \<union> {thread_id r |r. r \<in> set rows \<and> n \<in> row_names r}"
proof (induction rows arbitrary: nt)
  case Nil
  show ?case by simp
next
  case (Cons r rs)
  show ?case unfolding fold_simps Cons.IH
    by (cases "names_mentioned r") (auto simp: fold_add_name_thread row_names_def)
qed

lemma name_threads_eq: "name_threads rows n = {thread_id r |r. r \<in> set rows \<and> n \<in> row_names r}"
  by (simp add: name_threads_def fold_rows_name_threads)

lemma consolidate_name_Some:
  "consolidate_name nm name = Some p \<longleftrightarrow>
     name \<noteq> [] \<and> nm name = Some (Some p) \<and> p \<noteq> ''None''
     \<and> p \<notin> EXCLUDED_NAMES \<and> name \<notin> EXCLUDED_NAMES"
  by (auto simp: consolidate_name_def py_get_def split: option.splits if_splits)

lemma all_persons_names:
  "p \<in> all_persons nm e \<longleftrightarrow>
     p \<noteq> [] \<and> p \<noteq> ''None'' \<and> p \<notin> EXCLUDED_NAMES
     \<and> (\<exists>name \<in> set (listed_names e).
           name \<noteq> [] \<and> name \<notin> EXCLUDED_NAMES \<and> nm name = Some (Some p))"
proof -
  have je: "''Jeffrey Epstein'' \<in> EXCLUDED_NAMES" by (simp add: EXCLUDED_NAMES_def)
  show ?thesis
    unfolding in_all_persons consolidate_name_Some listed_names_def
    using je by (cases "names_mentioned e") auto
qed

lemma row_names_listed:
  "n \<in> row_names e \<longleftrightarrow> n \<noteq> [] \<and> (\<exists>x \<in> set (listed_names e). py_strip x = n)"
  by (cases "names_mentioned e") (auto simp: row_names_def listed_names_def)

text \<open>
  Claim C5, as stated, fails in the network build: a thread in which the entity appears
  only under a raw name of the exclusion set does not count.  Jeff and Geoff are both
  mapped to Geoffrey Smith and each is listed by one thread, so two distinct threads
  hold a variant mapped to the entity; the raw name Jeff is in the exclusion set, the
  mention is dropped and the count is 1.
\<close>

theorem occurrence_count_counterexample:
  "person_counts (map (all_persons geoff_mapping) geoff_threads) ''Geoffrey Smith'' = 1
   \<and> card (variant_threads geoff_mapping geoff_threads ''Geoffrey Smith'') = 2
   \<and> person_counts (map (all_persons geoff_mapping) geoff_threads) ''Geoffrey Smith''
       \<noteq> card (variant_threads geoff_mapping geoff_threads ''Geoffrey Smith'')"
  by (simp add: person_counts_def geoff_threads_def all_persons_def geoff_mapping_def
      count_persons_def consolidate_name_def py_get_def EXCLUDED_NAMES_def variant_threads_def
      listed_names_def)

text \<open>
  Claim C5, amended.  The emails table has one row per thread id.  In the network build
  the occurrence count of an entity is the number of distinct threads that list a raw
  name which is not empty, is not in the exclusion set and is mapped to the entity by
  the name mapping; it is 0 for the empty string, for \<open>None\<close> and for the names of the
  exclusion set.  In the table of unique names the count of a non-empty stripped name
  is the number of distinct threads that list a name which strips to it.  A thread that
  lists the entity several times counts once: X, listed three times in thread 1 and
  once in thread 2, has count 2.
\<close>

theorem occurrence_count_distinct_threads:
  assumes "distinct (map thread_id emails)"
  shows "person_counts (map (all_persons name_mapping) emails) p
           = (if p = [] \<or> p = ''None'' \<or> p \<in> EXCLUDED_NAMES then 0
              else card {thread_id e |e. e \<in> set emails \<and>
                      (\<exists>name \<in> set (listed_names e).
                          name \<noteq> [] \<and> name \<notin> EXCLUDED_NAMES
                          \<and> name_mapping name = Some (Some p))})
       \<and> name_counts emails n
           = (if n = [] then 0
              else card {thread_id e |e. e \<in> set emails \<and>
                      (\<exists>x \<in> set (listed_names e). py_strip x = n)})"
proof -
  have "person_counts (map (all_persons name_mapping) emails) p
          = length (filter (\<lambda>e. p \<in> all_persons name_mapping e) emails)"
    by (simp add: person_counts_length filter_map o_def)
  also have "\<dots> = card {thread_id e |e. e \<in> set emails \<and> p \<in> all_persons name_mapping e}"
    using assms by (rule length_filter_card_key)
  finally have 1: "person_counts (map (all_persons name_mapping) emails) p
      = card {thread_id e |e. e \<in> set emails \<and> p \<in> all_persons name_mapping e}" .
  have 2: "name_counts emails n = card {thread_id e |e. e \<in> set emails \<and> n \<in> row_names e}"
    by (simp add: name_counts_def name_threads_eq)
  show ?thesis unfolding 1 2 all_persons_names row_names_listed by simp
qed

theorem occurrence_count_distinct_threads_witness:
  "distinct (map thread_id three_threads)
   \<and> person_counts (map (all_persons mapping_X) three_threads) ''X''
       = card {thread_id e |e. e \<in> set three_threads \<and>
            (\<exists>name \<in> set (listed_names e).
                name \<noteq> [] \<and> name \<notin> EXCLUDED_NAMES \<and> mapping_X name = Some (Some ''X''))}
   \<and> person_counts (map (all_persons mapping_X) three_threads) ''X'' = 2
   \<and> name_counts three_threads ''X''
       = card {thread_id e |e. e \<in> set three_threads \<and>
            (\<exists>x \<in> set (listed_names e). py_strip x = ''X'')}
   \<and> name_counts three_threads ''X'' = 2"
proof -
  have h: "distinct (map thread_id three_threads)"
    by (simp add: three_threads_def)
  have x: "''X'' \<notin> EXCLUDED_NAMES"
    by (simp add: EXCLUDED_NAMES_def)
  have p: "person_counts (map (all_persons mapping_X) three_threads) ''X'' = 2"
    by (simp add: person_counts_def three_threads_def all_persons_def mapping_X_def
        count_persons_def consolidate_name_def py_get_def EXCLUDED_NAMES_def)
  have n: "name_counts three_threads ''X'' = 2"
    by (simp add: name_counts_def name_threads_def three_threads_def add_name_thread_def
        py_strip_def py_isspace_def)
  from occurrence_count_distinct_threads [OF h, of mapping_X "''X''" "''X''"] h x p n
  show ?thesis by simp
qed

section \<open>Properties of the co-occurrence graph\<close>

lemma in_set_update:
  "x \<in> set (AList.update k v al) \<Longrightarrow> x = (k, v) \<or> x \<in> set al"
  by (induction al) (auto split: if_splits)

lemma combinations2_sorted:
  "sorted xs \<Longrightarrow> distinct xs \<Longrightarrow> (a, b) \<in> set (combinations2 xs) \<Longrightarrow> a < b"
proof (induction xs)
  case Nil
  then show ?case by simp
next
  case (Cons x xs)
  then show ?case by (auto simp: less_le)
qed

lemma edges_ok_incr:
  assumes "edges_ok es" and "fst k < snd k"
  shows "edges_ok (counter_incr k es)"
proof -
  have "distinct (map fst (counter_incr k es))"
    using assms(1) by (simp add: counter_incr_def edges_ok_def distinct_update)
  moreover have "\<forall>((a, b), w) \<in> set (counter_incr k es). a < b \<and> 0 < w"
  proof -
    have "a < b \<and> 0 < w" if "((a, b), w) \<in> set (counter_incr k es)" for a b w
      using in_set_update [OF that [unfolded counter_incr_def]] assms
      by (auto simp: edges_ok_def split: option.splits)
    then show ?thesis by auto
  qed
  ultimately show ?thesis by (simp add: edges_ok_def)
qed

lemma edges_ok_fold_incr:
  "edges_ok es \<Longrightarrow> \<forall>k \<in> set ks. fst k < snd k \<Longrightarrow> edges_ok (fold counter_incr ks es)"
  by (induction ks arbitrary: es) (simp_all add: edges_ok_incr)

lemma edges_ok_add_thread: "edges_ok es \<Longrightarrow> edges_ok (add_thread_edges valid persons es)"
  unfolding add_thread_edges_def Let_def
  by (rule edges_ok_fold_incr) (auto dest: combinations2_sorted [rotated 2])

lemma edges_ok_fold_threads:
  "edges_ok es \<Longrightarrow> edges_ok (fold (add_thread_edges valid) threads es)"
  by (induction threads arbitrary: es) (simp_all add: edges_ok_add_thread)

lemma edges_ok_build_edges: "edges_ok (build_edges valid threads)"
  unfolding build_edges_def by (rule edges_ok_fold_threads) (simp add: edges_ok_def)

lemma adj_add_edge:
  "adj (add_edge u v w g) x y =
     (if (x = u \<and> y = v) \<or> (x = v \<and> y = u) then Some w else adj g x y)"
  by (auto simp: add_edge_def Let_def)

lemma graph_ok_add_edge:
  assumes "graph_ok S g" and "((u, v), w) \<in> S"
  shows "graph_ok S (add_edge u v w g)"
  using assms unfolding graph_ok_def adj_add_edge by auto

lemma graph_ok_fold:
  assumes "graph_ok S g" and "set es \<subseteq> S"
  shows "graph_ok S (fold (\<lambda>((p1, p2), weight) g. if m \<le> weight then add_edge p1 p2 weight g else g) es g)"
  using assms
proof (induction es arbitrary: g)
  case Nil
  then show ?case by simp
next
  case (Cons e es)
  obtain p1 p2 w where e: "e = ((p1, p2), w)" by (cases e) auto
  have "graph_ok S (if m \<le> w then add_edge p1 p2 w g else g)"
    using Cons.prems e by (simp add: graph_ok_add_edge)
  then show ?case using Cons.IH Cons.prems(2) e by simp
qed

lemma graph_ok_remove:
  "graph_ok S g \<Longrightarrow> graph_ok S (remove_nodes_from ns g)"
  unfolding graph_ok_def remove_nodes_from_def by auto

lemma graph_ok_build_graph: "graph_ok (set es) (build_graph m es)"
  unfolding build_graph_def graph_before_isolates_def Let_def
  by (intro graph_ok_remove graph_ok_fold) (simp_all add: graph_ok_def empty_graph_def)









text \<open>
  Claim C7.  Every key stored in \<open>edges\<close> is a pair of two distinct entities in sorted
  order, \<open>(min a b, max a b)\<close>, so there is one entry at most for an unordered pair and
  none for a pair \<open>(a, a)\<close>, also when a thread lists an entity more than once.  In the
  graph built from \<open>edges\<close> the pairs \<open>(a, b)\<close> and \<open>(b, a)\<close> read the same weight, the
  one stored under the sorted key, and no entity is its own neighbour.
\<close>

theorem edge_keys_canonical:
  "(\<forall>((a, b), w) \<in> set (build_edges valid threads). a < b \<and> (a, b) = (min a b, max a b) \<and> 0 < w)
   \<and> distinct (map fst (build_edges valid threads))
   \<and> (\<forall>a b. (a, b) \<in> fst ` set (build_edges valid threads)
          \<longrightarrow> (b, a) \<notin> fst ` set (build_edges valid threads))
   \<and> (\<forall>a. (a, a) \<notin> fst ` set (build_edges valid threads))
   \<and> (\<forall>a b. adj (build_graph m (build_edges valid threads)) a b
            = adj (build_graph m (build_edges valid threads)) b a)
   \<and> (\<forall>a b w. adj (build_graph m (build_edges valid threads)) a b = Some w
          \<longrightarrow> ((min a b, max a b), w) \<in> set (build_edges valid threads))
   \<and> (\<forall>a. adj (build_graph m (build_edges valid threads)) a a = None)"
proof -
  define es where "es = build_edges valid threads"
  define G where "G = build_graph m es"
  have ok: "edges_ok es" unfolding es_def by (rule edges_ok_build_edges)
  have gk: "graph_ok (set es) G" unfolding G_def by (rule graph_ok_build_graph)
  have lt: "a < b \<and> 0 < w" if "((a, b), w) \<in> set es" for a b w
    using ok that by (auto simp: edges_ok_def)
  have 1: "\<forall>((a, b), w) \<in> set es. a < b \<and> (a, b) = (min a b, max a b) \<and> 0 < w"
  proof -
    have "a < b \<and> (a, b) = (min a b, max a b) \<and> 0 < w" if "((a, b), w) \<in> set es" for a b w
      using lt [OF that] by (simp add: min_absorb1 max_absorb2 less_imp_le)
    then show ?thesis by auto
  qed
  have 2: "distinct (map fst es)" using ok by (simp add: edges_ok_def)
  have key: "a < b" if "(a, b) \<in> fst ` set es" for a b
  proof -
    from that obtain w where "((a, b), w) \<in> set es" by auto
    then show ?thesis using lt by blast
  qed
  have 3: "\<forall>a b. (a, b) \<in> fst ` set es \<longrightarrow> (b, a) \<notin> fst ` set es"
  proof (intro allI impI notI)
    fix a b assume "(a, b) \<in> fst ` set es" and "(b, a) \<in> fst ` set es"
    then have "a < b" and "b < a" by (simp_all add: key)
    then show False by simp
  qed
  have 4: "\<forall>a. (a, a) \<notin> fst ` set es"
  proof (intro allI notI)
    fix a assume "(a, a) \<in> fst ` set es"
    then have "a < a" by (rule key)
    then show False by simp
  qed
  have 5: "\<forall>a b. adj G a b = adj G b a" using gk by (simp add: graph_ok_def)
  have 6: "\<forall>a b w. adj G a b = Some w \<longrightarrow> ((min a b, max a b), w) \<in> set es"
  proof (intro allI impI)
    fix a b w assume "adj G a b = Some w"
    then have "((a, b), w) \<in> set es \<or> ((b, a), w) \<in> set es"
      using gk by (simp add: graph_ok_def)
    then show "((min a b, max a b), w) \<in> set es"
    proof
      assume h: "((a, b), w) \<in> set es"
      then have "a < b" using lt by blast
      then show ?thesis using h by (simp add: min_absorb1 max_absorb2 less_imp_le)
    next
      assume h: "((b, a), w) \<in> set es"
      then have "b < a" using lt by blast
      then show ?thesis using h by (simp add: min_absorb2 max_absorb1 less_imp_le)
    qed
  qed
  have 7: "\<forall>a. adj G a a = None"
  proof
    fix a
    show "adj G a a = None"
    proof (cases "adj G a a")
      case None then show ?thesis .
    next
      case (Some w)
      then have "((a, a), w) \<in> set es" using 6 [rule_format, of a a w] by simp
      then show ?thesis using lt by blast
    qed
  qed
  from 1 2 3 4 5 6 7 show ?thesis unfolding G_def es_def by blast
qed

theorem edge_keys_canonical_witness:
  "xy_edges = [((''X'', ''Y''), 4)]
   \<and> distinct (map fst xy_edges)
   \<and> (''Y'', ''X'') \<notin> fst ` set xy_edges
   \<and> (''X'', ''X'') \<notin> fst ` set xy_edges
   \<and> adj xy_graph ''X'' ''Y'' = adj xy_graph ''Y'' ''X''
   \<and> adj xy_graph ''X'' ''X'' = None"
proof -
  note t = edge_keys_canonical
    [of "valid_persons (person_counts (map (all_persons mapping_X) xy_emails))"
        "map (all_persons mapping_X) xy_emails" 1,
      folded xy_edges_def, folded xy_graph_def]
  have e: "xy_edges = [((''X'', ''Y''), 4)]"
    unfolding xy_edges_def by code_simp
  have k: "(''X'', ''Y'') \<in> fst ` set xy_edges"
    by (simp add: e)
  have d: "distinct (map fst xy_edges)" using t by blast
  have r: "(''Y'', ''X'') \<notin> fst ` set xy_edges" using t k by blast
  have l: "(''X'', ''X'') \<notin> fst ` set xy_edges" using t by blast
  have s: "adj xy_graph ''X'' ''Y'' = adj xy_graph ''Y'' ''X''" using t by blast
  have n: "adj xy_graph ''X'' ''X'' = None" using t by blast
  from e d r l s n show ?thesis by blast
qed






section \<open>Properties of the suffix matcher\<close>













section \<open>Properties of the token matcher\<close>

lemma groups_okD:
  assumes "groups_ok pg" and "(key, s) \<in> set pg"
  shows "2 \<le> card key \<and> finite s \<and> (\<forall>n \<in> s. key \<subseteq> tokenize_name n)"
  using assms unfolding groups_ok_def by blast

lemma groups_ok_group_add:
  assumes "groups_ok pg" and "2 \<le> card key" and "key \<subseteq> tokenize_name n1" and "key \<subseteq> tokenize_name n2"
  shows "groups_ok (group_add key n1 n2 pg)"
proof (cases "map_of pg key")
  case None
  then show ?thesis using assms by (auto simp: groups_ok_def group_add_def)
next
  case (Some s)
  then have "(key, s) \<in> set pg" by (rule map_of_SomeD)
  then have "2 \<le> card key \<and> finite s \<and> (\<forall>n \<in> s. key \<subseteq> tokenize_name n)"
    by (rule groups_okD [OF assms(1)])
  then have s: "finite s" "\<forall>n \<in> s. key \<subseteq> tokenize_name n"
    by simp_all
  have "2 \<le> card k \<and> finite t \<and> (\<forall>n \<in> t. k \<subseteq> tokenize_name n)"
    if "(k, t) \<in> set (AList.update key (insert n2 (insert n1 s)) pg)" for k t
  proof -
    from in_set_update [OF that]
    show ?thesis
    proof
      assume "(k, t) = (key, insert n2 (insert n1 s))"
      then show ?thesis using assms(2,3,4) s by simp
    next
      assume "(k, t) \<in> set pg"
      then show ?thesis by (rule groups_okD [OF assms(1)])
    qed
  qed
  then show ?thesis using Some by (auto simp: groups_ok_def group_add_def)
qed

lemma groups_ok_pair_step:
  assumes "groups_ok (fst st)"
  shows "groups_ok (fst (pair_step name1 name2 st))"
proof -
  obtain pg pp where st: "st = (pg, pp)" by (cases st)
  have "groups_ok (group_add (tokenize_name name1 \<inter> tokenize_name name2) name1 name2 pg)"
    if "2 \<le> card (tokenize_name name1 \<inter> tokenize_name name2)"
    using assms st that by (intro groups_ok_group_add) auto
  then show ?thesis using assms st by (auto simp: pair_step_def Let_def)
qed

lemma groups_ok_fold_pair_step:
  "groups_ok (fst st) \<Longrightarrow> groups_ok (fst (fold (pair_step name1) ns st))"
  by (induction ns arbitrary: st) (simp_all add: groups_ok_pair_step)

lemma groups_ok_fold_tokens:
  "groups_ok (fst st) \<Longrightarrow>
     groups_ok (fst (fold (\<lambda>token st'. fold (pair_step name1) (f token) st') ts st))"
  by (induction ts arbitrary: st) (simp_all add: groups_ok_fold_pair_step)

lemma groups_ok_name_step:
  "groups_ok (fst st) \<Longrightarrow> groups_ok (fst (name_step tok_order name_order names name1 st))"
  by (simp add: name_step_def Let_def groups_ok_fold_tokens)

lemma groups_ok_fold_names:
  "groups_ok (fst st) \<Longrightarrow>
     groups_ok (fst (fold (name_step tok_order name_order names) ns st))"
  by (induction ns arbitrary: st) (simp_all add: groups_ok_name_step)

lemma groups_ok_potential_groups: "groups_ok (potential_groups tok_order name_order names)"
  unfolding potential_groups_def
  by (rule groups_ok_fold_names) (simp add: groups_ok_def)

lemma emitted_ok_emit_group:
  assumes "emitted_ok st" and "2 \<le> card key" and "finite s" and "\<forall>n \<in> s. key \<subseteq> tokenize_name n"
    and "set (group_order key s) = s" and "distinct (group_order key s)"
  shows "emitted_ok (emit_group group_order (key, s) st)"
proof -
  obtain groups seen where st: "st = (groups, seen)" by (cases st)
  define new where "new = filter (\<lambda>n. n \<notin> seen) (group_order key s)"
  have d: "distinct new" using assms(6) by (simp add: new_def)
  have dj: "set new \<inter> seen = {}" by (auto simp: new_def)
  have sub: "set new \<subseteq> s" using assms(5) by (auto simp: new_def)
  have old: "distinct (concat groups)" "set (concat groups) \<subseteq> seen"
    "\<forall>g \<in> set groups. 2 \<le> length g \<and>
        (\<exists>key. 2 \<le> card key \<and> (\<forall>n \<in> set g. key \<subseteq> tokenize_name n))"
    using assms(1) st by (simp_all add: emitted_ok_def)
  have k: "\<exists>key. 2 \<le> card key \<and> (\<forall>n \<in> set new. key \<subseteq> tokenize_name n)"
    using assms(2,4) sub by blast
  have "emitted_ok (groups @ [new], seen \<union> set new)" if "2 \<le> length new"
    unfolding emitted_ok_def using old d dj k that by auto
  then show ?thesis using assms(1) st by (simp add: emit_group_def Let_def new_def)
qed

lemma emitted_ok_fold:
  assumes "emitted_ok st" and "groups_ok items"
    and "\<forall>key S. finite S \<longrightarrow> set (group_order key S) = S \<and> distinct (group_order key S)"
  shows "emitted_ok (fold (emit_group group_order) items st)"
  using assms(1,2)
proof (induction items arbitrary: st)
  case Nil
  then show ?case by simp
next
  case (Cons item items)
  obtain key s where item: "item = (key, s)" by (cases item)
  have i: "2 \<le> card key" "finite s" "\<forall>n \<in> s. key \<subseteq> tokenize_name n"
    using groups_okD [OF Cons.prems(2), of key s] item by simp_all
  have o: "set (group_order key s) = s" "distinct (group_order key s)"
    using assms(3) i(2) by auto
  have "emitted_ok (emit_group group_order item st)"
    unfolding item
    by (rule emitted_ok_emit_group [where group_order = group_order, OF Cons.prems(1) i o])
  moreover have "groups_ok items" using Cons.prems(2) by (simp add: groups_ok_def)
  ultimately show ?case using Cons.IH by simp
qed

lemma groups_ok_sort_key: "groups_ok pg \<Longrightarrow> groups_ok (sort_key f pg)"
  by (simp add: groups_ok_def)

lemma emitted_ok_find:
  assumes "\<forall>key S. finite S \<longrightarrow> set (group_order key S) = S \<and> distinct (group_order key S)"
  shows "emitted_ok (fold (emit_group group_order)
            (sort_key (\<lambda>(group_key, group_names). - int (card group_names))
               (potential_groups tok_order name_order names))
            ([], {}))"
  by (rule emitted_ok_fold [OF _ groups_ok_sort_key [OF groups_ok_potential_groups] assms])
     (simp add: emitted_ok_def)

text \<open>
  Claim C8.  For every input list of names, and whatever the order in which Python
  iterates the sets, the groups returned by \<open>find_potential_duplicates\<close> are pairwise
  disjoint (no name occurs twice in their concatenation), each has two names at least,
  and any two names of a group share two tokens at least, the tokens of a name being
  the runs of the letters a-z of the lower-cased name that are longer than one letter
  and are not one of the stop words jr, sr, ii, iii, iv, dr, mr, ms, mrs, prof.
\<close>

theorem token_overlap_groups:
  assumes "\<forall>key S. finite S \<longrightarrow> set (group_order key S) = S \<and> distinct (group_order key S)"
  shows "distinct (concat (find_potential_duplicates tok_order name_order group_order names))
       \<and> (\<forall>g \<in> set (find_potential_duplicates tok_order name_order group_order names).
            \<forall>h \<in> set (find_potential_duplicates tok_order name_order group_order names).
              g \<noteq> h \<longrightarrow> set g \<inter> set h = {})
       \<and> (\<forall>g \<in> set (find_potential_duplicates tok_order name_order group_order names).
            2 \<le> length g \<and> distinct g)
       \<and> (\<forall>g \<in> set (find_potential_duplicates tok_order name_order group_order names).
            \<forall>a \<in> set g. \<forall>b \<in> set g. 2 \<le> card (tokenize_name a \<inter> tokenize_name b))"
proof -
  define st where "st = fold (emit_group group_order)
            (sort_key (\<lambda>(group_key, group_names). - int (card group_names))
               (potential_groups tok_order name_order names))
            ([], {})"
  define gs where "gs = find_potential_duplicates tok_order name_order group_order names"
  have gs: "gs = fst st" by (simp add: gs_def st_def find_potential_duplicates_def)
  have "emitted_ok st" unfolding st_def by (rule emitted_ok_find [OF assms])
  then have d: "distinct (concat gs)"
    and k: "\<forall>g \<in> set gs. 2 \<le> length g \<and>
        (\<exists>key. 2 \<le> card key \<and> (\<forall>n \<in> set g. key \<subseteq> tokenize_name n))"
    unfolding gs by (cases st; simp add: emitted_ok_def)+
  have 2: "\<forall>g \<in> set gs. \<forall>h \<in> set gs. g \<noteq> h \<longrightarrow> set g \<inter> set h = {}"
    using d by (simp add: distinct_concat_iff)
  have 3: "\<forall>g \<in> set gs. 2 \<le> length g \<and> distinct g"
    using d k by (simp add: distinct_concat_iff)
  have 4: "\<forall>g \<in> set gs. \<forall>a \<in> set g. \<forall>b \<in> set g. 2 \<le> card (tokenize_name a \<inter> tokenize_name b)"
  proof (intro ballI)
    fix g a b assume "g \<in> set gs" and a: "a \<in> set g" and b: "b \<in> set g"
    then obtain key where key: "2 \<le> card key" "\<forall>n \<in> set g. key \<subseteq> tokenize_name n"
      using k by blast
    have "key \<subseteq> tokenize_name a \<inter> tokenize_name b" using key(2) a b by blast
    moreover have "finite (tokenize_name a \<inter> tokenize_name b)"
      by (simp add: tokenize_name_def)
    ultimately have "card key \<le> card (tokenize_name a \<inter> tokenize_name b)"
      by (simp add: card_mono)
    then show "2 \<le> card (tokenize_name a \<inter> tokenize_name b)" using key(1) by simp
  qed
  from d 2 3 4 show ?thesis unfolding gs_def by blast
qed

theorem token_overlap_groups_witness:
  "find_potential_duplicates sorted_order sorted_order sorted_order reordered_names
     = [[''Dr. Thomas Landon III'', ''Landon Thomas'', ''Thomas Jr. Landon''],
        [''John Smith'', ''Smith, John A.'']]
   \<and> distinct (concat (find_potential_duplicates sorted_order sorted_order sorted_order
        reordered_names))
   \<and> tokenize_name ''Dr. Thomas Landon III'' = {''thomas'', ''landon''}
   \<and> tokenize_name ''Thomas Jr. Landon'' = {''thomas'', ''landon''}
   \<and> tokenize_name ''Smith, John A.'' = {''smith'', ''john''}"
proof -
  have h: "\<forall>key S. finite S \<longrightarrow>
      set (sorted_order key S) = S \<and> distinct (sorted_order key S)"
    by (simp add: sorted_order_def)
  have e: "find_potential_duplicates sorted_order sorted_order sorted_order reordered_names
     = [[''Dr. Thomas Landon III'', ''Landon Thomas'', ''Thomas Jr. Landon''],
        [''John Smith'', ''Smith, John A.'']]"
    by code_simp
  have d: "distinct (concat (find_potential_duplicates sorted_order sorted_order sorted_order
        reordered_names))"
    using token_overlap_groups [OF h, of sorted_order sorted_order reordered_names] by blast
  have k: "tokenize_name ''Dr. Thomas Landon III'' = {''thomas'', ''landon''}"
    "tokenize_name ''Thomas Jr. Landon'' = {''thomas'', ''landon''}"
    "tokenize_name ''Smith, John A.'' = {''smith'', ''john''}"
    by code_simp+
  from e d k show ?thesis by blast
qed

end
